theory Spec2Isabelle
  imports Complex_Main "HOL-Library.Sublist"
begin

section \<open>Python values used by the pipeline\<close>

text \<open>
  A Python \<^verbatim>\<open>str\<close> is a sequence of Unicode code points; \<^verbatim>\<open>len\<close> counts code points.
  Code points are natural numbers here, so \<open>length\<close> is Python's \<^verbatim>\<open>len\<close>.
\<close>

type_synonym pystr = "nat list"

datatype error = ValueError | IndexError

text \<open>
  \<^verbatim>\<open>str.isspace\<close> on one code point. The regular expression class \<^verbatim>\<open>\s\<close> on
  \<^verbatim>\<open>str\<close> patterns, \<^verbatim>\<open>str.split()\<close> and \<^verbatim>\<open>str.strip()\<close> all use this set.
\<close>

definition isspace :: "nat \<Rightarrow> bool" where
  "isspace c \<longleftrightarrow>
     c \<in> set [9, 10, 11, 12, 13, 28, 29, 30, 31, 32, 133, 160, 5760,
               8232, 8233, 8239, 8287, 12288]
     \<or> (8192 \<le> c \<and> c \<le> 8202)"

text \<open>\<^verbatim>\<open>re.sub(r'\s+', ' ', text)\<close>: every maximal run of whitespace becomes one space (code point 32).\<close>

function re_sub_ws :: "pystr \<Rightarrow> pystr" where
  "re_sub_ws [] = []"
| "re_sub_ws (c # cs) =
     (if isspace c then 32 # re_sub_ws (dropWhile isspace cs)
      else c # re_sub_ws cs)"
  by pat_completeness auto
termination
  by (relation "measure length") (auto simp: less_Suc_eq_le length_dropWhile_le)

definition lstrip :: "pystr \<Rightarrow> pystr" where
  "lstrip s = dropWhile isspace s"

definition rstrip :: "pystr \<Rightarrow> pystr" where
  "rstrip s = rev (dropWhile isspace (rev s))"

text \<open>\<^verbatim>\<open>text.strip()\<close>\<close>

definition strip :: "pystr \<Rightarrow> pystr" where
  "strip s = rstrip (lstrip s)"

text \<open>
  \<^verbatim>\<open>text.split()\<close> without arguments: skip whitespace, then read one word up to the next
  whitespace character; no empty words are produced.
\<close>

function split_ws :: "pystr \<Rightarrow> pystr list" where
  "split_ws [] = []"
| "split_ws (c # cs) =
     (if isspace c then split_ws cs
      else (c # takeWhile (\<lambda>x. \<not> isspace x) cs)
             # split_ws (dropWhile (\<lambda>x. \<not> isspace x) cs))"
  by pat_completeness auto
termination
  by (relation "measure length") (auto simp: less_Suc_eq_le length_dropWhile_le)

text \<open>\<^verbatim>\<open>sep.join(words)\<close>\<close>

fun join :: "pystr \<Rightarrow> pystr list \<Rightarrow> pystr" where
  "join sep [] = []"
| "join sep [w] = w"
| "join sep (w # v # ws) = w @ sep @ join sep (v # ws)"

text \<open>
  \<^verbatim>\<open>range(start, stop, step)\<close> as the list of its elements. A zero step raises
  \<^verbatim>\<open>ValueError\<close>; the number of elements is the one CPython computes.
\<close>

definition py_range :: "int \<Rightarrow> int \<Rightarrow> int \<Rightarrow> error + int list" where
  "py_range start stop step =
     (if step = 0 then Inl ValueError
      else Inr (map (\<lambda>k. start + int k * step)
                 [0..<nat (if 0 < step
                           then (if start < stop then (stop - start - 1) div step + 1 else 0)
                           else (if stop < start then (start - stop - 1) div (- step) + 1 else 0))]))"

text \<open>
  \<^verbatim>\<open>xs[lo:hi]\<close>: a negative bound counts from the end, and both bounds are clamped to
  the list.
\<close>

definition py_slice :: "'a list \<Rightarrow> int \<Rightarrow> int \<Rightarrow> 'a list" where
  "py_slice xs lo hi =
     (let n = int (length xs);
          l = (if lo < 0 then max (lo + n) 0 else min lo n);
          h = (if hi < 0 then max (hi + n) 0 else min hi n)
      in take (nat (h - l)) (drop (nat l) xs))"

text \<open>
  \<^verbatim>\<open>sorted(xs, key=key, reverse=True)\<close>: CPython reverses the list, sorts it stably in
  ascending order and reverses the result, which keeps equal keys in their original order.
\<close>

definition sorted_reverse :: "('a \<Rightarrow> 'k::linorder) \<Rightarrow> 'a list \<Rightarrow> 'a list" where
  "sorted_reverse key xs = rev (sort_key key (rev xs))"

section \<open>Embedding.py: cleaning and chunking\<close>

definition CHUNK_SIZE :: int where
  "CHUNK_SIZE = 1000"

definition CHUNK_OVERLAP :: int where
  "CHUNK_OVERLAP = 200"

definition clean_text :: "pystr \<Rightarrow> pystr" where
  "clean_text text = strip (re_sub_ws text)"

text \<open>The body of the loop of \<^verbatim>\<open>chunk_text\<close> for one index \<open>i\<close>.\<close>

definition chunk_step :: "pystr list \<Rightarrow> int \<Rightarrow> pystr list \<Rightarrow> int \<Rightarrow> pystr list" where
  "chunk_step words chunk_size chunks i =
     (let chunk = join [32] (py_slice words i (i + chunk_size))
      in if chunk \<noteq> [] then chunks @ [chunk] else chunks)"

definition chunk_text :: "pystr \<Rightarrow> int \<Rightarrow> int \<Rightarrow> error + pystr list" where
  "chunk_text text chunk_size overlap =
     (let words = split_ws text
      in case py_range 0 (int (length words)) (chunk_size - overlap) of
           Inl e \<Rightarrow> Inl e
         | Inr idxs \<Rightarrow> Inr (foldl (chunk_step words chunk_size) [] idxs))"

section \<open>Embedding.py: ingestion\<close>

text \<open>
  A post of the JSON file. \<open>post_id\<close> is the string \<^verbatim>\<open>str(post.get("post_id"))\<close>;
  \<open>content\<close> is \<open>None\<close> when the key is missing, and \<^verbatim>\<open>post.get("content", "")\<close> then
  yields the empty string.
\<close>

record post =
  post_id :: pystr
  url :: pystr
  content :: "pystr option"

definition post_get_content :: "post \<Rightarrow> pystr" where
  "post_get_content p = (case content p of None \<Rightarrow> [] | Some c \<Rightarrow> c)"

text \<open>The loop over the posts, on the pair of lists \<open>(chunks, metadata)\<close> it extends.\<close>

fun discourse_loop ::
  "post list \<Rightarrow> pystr list \<times> (pystr \<times> pystr) list
     \<Rightarrow> error + pystr list \<times> (pystr \<times> pystr) list" where
  "discourse_loop [] (chunks, metadata) = Inr (chunks, metadata)"
| "discourse_loop (p # posts) (chunks, metadata) =
     (if length (clean_text (post_get_content p)) < 30
      then discourse_loop posts (chunks, metadata)
      else case chunk_text (clean_text (post_get_content p)) CHUNK_SIZE CHUNK_OVERLAP of
             Inl e \<Rightarrow> Inl e
           | Inr post_chunks \<Rightarrow>
               discourse_loop posts
                 (chunks @ post_chunks,
                  metadata @ replicate (length post_chunks) (post_id p, url p)))"

text \<open>
  The insertion loop \<^verbatim>\<open>for i in range(len(chunks))\<close>: one row per chunk. An index
  outside \<open>metadata\<close> or \<open>embeddings\<close> raises before the commit, so nothing is stored.
  The embedding column holds the serialised vector; the vector stands for it here.
\<close>

definition insert_rows ::
  "'m list \<Rightarrow> pystr list \<Rightarrow> 'e list \<Rightarrow> ('m \<times> pystr \<times> 'e) list
     \<Rightarrow> error + ('m \<times> pystr \<times> 'e) list" where
  "insert_rows metadata chunks embeddings table =
     (if length metadata < length chunks \<or> length embeddings < length chunks
      then Inl IndexError
      else Inr (table @ map (\<lambda>i. (metadata ! i, chunks ! i, embeddings ! i))
                          [0..<length chunks]))"

text \<open>
  \<^verbatim>\<open>process_discourse\<close>. The JSON file is \<open>None\<close> when it does not exist; the embedding
  model \<^verbatim>\<open>embed_chunks\<close> is a parameter. The result is the table after the commit.
\<close>

definition process_discourse ::
  "(pystr list \<Rightarrow> 'e list) \<Rightarrow> post list option \<Rightarrow> ((pystr \<times> pystr) \<times> pystr \<times> 'e) list
     \<Rightarrow> error + ((pystr \<times> pystr) \<times> pystr \<times> 'e) list" where
  "process_discourse embed_chunks posts_file table =
     (case posts_file of
        None \<Rightarrow> Inr table
      | Some posts \<Rightarrow>
          (case discourse_loop posts ([], []) of
             Inl e \<Rightarrow> Inl e
           | Inr (chunks, metadata) \<Rightarrow>
               insert_rows metadata chunks (embed_chunks chunks) table))"

text \<open>A markdown file: its name in the directory and the text read from it.\<close>

record md_file =
  file_name :: pystr
  file_text :: pystr

text \<open>\<^verbatim>\<open>f.endswith(".md")\<close>\<close>

definition endswith_md :: "pystr \<Rightarrow> bool" where
  "endswith_md f \<longleftrightarrow> 3 \<le> length f \<and> drop (length f - 3) f = [46, 109, 100]"

fun markdown_loop ::
  "md_file list \<Rightarrow> pystr list \<times> (pystr \<times> nat) list
     \<Rightarrow> error + pystr list \<times> (pystr \<times> nat) list" where
  "markdown_loop [] (chunks, metadata) = Inr (chunks, metadata)"
| "markdown_loop (f # files) (chunks, metadata) =
     (if length (clean_text (file_text f)) < 30
      then markdown_loop files (chunks, metadata)
      else case chunk_text (clean_text (file_text f)) CHUNK_SIZE CHUNK_OVERLAP of
             Inl e \<Rightarrow> Inl e
           | Inr file_chunks \<Rightarrow>
               markdown_loop files
                 (chunks @ file_chunks,
                  metadata @ map (\<lambda>i. (file_name f, i)) [0..<length file_chunks]))"

text \<open>
  \<^verbatim>\<open>process_markdown\<close>. The directory listing is \<open>None\<close> when the directory does not
  exist; a listing without \<^verbatim>\<open>.md\<close> files returns early.
\<close>

definition process_markdown ::
  "(pystr list \<Rightarrow> 'e list) \<Rightarrow> md_file list option \<Rightarrow> ((pystr \<times> nat) \<times> pystr \<times> 'e) list
     \<Rightarrow> error + ((pystr \<times> nat) \<times> pystr \<times> 'e) list" where
  "process_markdown embed_chunks listing table =
     (case listing of
        None \<Rightarrow> Inr table
      | Some entries \<Rightarrow>
          (if filter (\<lambda>f. endswith_md (file_name f)) entries = [] then Inr table
           else case markdown_loop (filter (\<lambda>f. endswith_md (file_name f)) entries) ([], []) of
                  Inl e \<Rightarrow> Inl e
                | Inr (chunks, metadata) \<Rightarrow>
                    insert_rows metadata chunks (embed_chunks chunks) table))"

section \<open>app.py: similarity retrieval\<close>

text \<open>
  Embedding vectors, with real components. \<^verbatim>\<open>cosine_similarity\<close> of scikit-learn on two
  single-row matrices: rows of different or zero length are rejected with \<^verbatim>\<open>ValueError\<close>;
  each row is divided by its Euclidean norm, a zero norm being replaced by 1 first
  (\<^verbatim>\<open>_handle_zeros_in_scale\<close>), so that no division by zero occurs; the score is the dot
  product of the normalised rows.
\<close>

type_synonym vec = "real list"

definition row_norm :: "vec \<Rightarrow> real" where
  "row_norm x = sqrt (sum_list (map (\<lambda>v. v * v) x))"

definition handle_zeros_in_scale :: "real \<Rightarrow> real" where
  "handle_zeros_in_scale scale = (if scale = 0 then 1 else scale)"

definition normalize_l2 :: "vec \<Rightarrow> vec" where
  "normalize_l2 x = map (\<lambda>v. v / handle_zeros_in_scale (row_norm x)) x"

definition dot :: "vec \<Rightarrow> vec \<Rightarrow> real" where
  "dot x y = sum_list (map (\<lambda>(a, b). a * b) (zip x y))"

definition cosine_similarity :: "vec \<Rightarrow> vec \<Rightarrow> error + real" where
  "cosine_similarity x y =
     (if x = [] \<or> y = [] \<or> length x \<noteq> length y then Inl ValueError
      else Inr (dot (normalize_l2 x) (normalize_l2 y)))"

text \<open>The list comprehension \<open>scored\<close> of \<^verbatim>\<open>find_best_match\<close>.\<close>

fun score_chunks ::
  "vec \<Rightarrow> (int \<times> pystr \<times> vec) list \<Rightarrow> error + (int \<times> pystr \<times> real) list" where
  "score_chunks q_emb [] = Inr []"
| "score_chunks q_emb ((cid, text, emb) # rest) =
     (case cosine_similarity q_emb emb of
        Inl e \<Rightarrow> Inl e
      | Inr s \<Rightarrow>
          (case score_chunks q_emb rest of
             Inl e \<Rightarrow> Inl e
           | Inr ys \<Rightarrow> Inr ((cid, text, s) # ys)))"

text \<open>The sort key \<^verbatim>\<open>lambda x: x[2]\<close>.\<close>

definition score :: "int \<times> pystr \<times> real \<Rightarrow> real" where
  "score x = snd (snd x)"

text \<open>
  \<^verbatim>\<open>find_best_match\<close>. The embedding model \<^verbatim>\<open>get_embedding\<close> and the table reader
  \<^verbatim>\<open>load_chunks\<close> are parameters.
\<close>

definition find_best_match ::
  "(pystr \<Rightarrow> vec) \<Rightarrow> ('t \<Rightarrow> (int \<times> pystr \<times> vec) list) \<Rightarrow> pystr \<Rightarrow> 't \<Rightarrow> int
     \<Rightarrow> error + (int \<times> pystr \<times> real) list" where
  "find_best_match get_embedding load_chunks question table_name top_k =
     (case score_chunks (get_embedding question) (load_chunks table_name) of
        Inl e \<Rightarrow> Inl e
      | Inr scored \<Rightarrow> Inr (py_slice (sorted_reverse score scored) 0 top_k))"

section \<open>Predicates used in the statements\<close>

text \<open>A word as \<^verbatim>\<open>split\<close> produces it: not empty and free of whitespace.\<close>

definition token :: "pystr \<Rightarrow> bool" where
  "token w \<longleftrightarrow> w \<noteq> [] \<and> list_all (\<lambda>c. \<not> isspace c) w"

text \<open>No two neighbouring characters are both whitespace.\<close>

fun no_double_ws :: "pystr \<Rightarrow> bool" where
  "no_double_ws [] = True"
| "no_double_ws [c] = True"
| "no_double_ws (a # b # cs) = (\<not> (isspace a \<and> isspace b) \<and> no_double_ws (b # cs))"

text \<open>
  The reconstruction of the word sequence from the chunks: the words of the first chunk,
  followed by the words of every later chunk without its first \<open>overlap\<close> words, which
  repeat the end of the chunk before it.
\<close>

fun dedup_concat :: "nat \<Rightarrow> pystr list \<Rightarrow> pystr list" where
  "dedup_concat overlap [] = []"
| "dedup_concat overlap (c # cs) =
     split_ws c @ concat (map (\<lambda>d. drop overlap (split_ws d)) cs)"

section \<open>Words, joining and whitespace\<close>

lemma isspace_32: "isspace 32"
  by (simp add: isspace_def)

lemma list_all_takeWhile: "list_all P (takeWhile P xs)"
  by (induction xs) simp_all

lemma token_split_ws: "list_all token (split_ws s)"
proof (induction s rule: split_ws.induct)
  case 1
  show ?case by simp
next
  case (2 c cs)
  have "list_all (\<lambda>x. \<not> isspace x) (takeWhile (\<lambda>x. \<not> isspace x) cs)"
    by (rule list_all_takeWhile)
  with 2 show ?case by (simp add: token_def)
qed

lemma join_Cons: "join sep (w # ws) = (if ws = [] then w else w @ sep @ join sep ws)"
  by (cases ws) simp_all

lemma join_eq_Nil: "list_all token ws \<Longrightarrow> join sep ws = [] \<longleftrightarrow> ws = []"
  by (cases ws) (auto simp: join_Cons token_def)

lemma hd_join: "list_all token ws \<Longrightarrow> ws \<noteq> [] \<Longrightarrow> \<not> isspace (hd (join sep ws))"
  by (cases ws) (auto simp: join_Cons token_def list_all_iff)

lemma last_join: "list_all token ws \<Longrightarrow> ws \<noteq> [] \<Longrightarrow> \<not> isspace (last (join sep ws))"
proof (induction ws)
  case Nil
  then show ?case by simp
next
  case (Cons w ws)
  show ?case
  proof (cases "ws = []")
    case True
    with Cons.prems show ?thesis by (simp add: token_def list_all_iff)
  next
    case False
    with Cons have "\<not> isspace (last (join sep ws))" "join sep ws \<noteq> []"
      by (simp_all add: join_eq_Nil)
    with False show ?thesis by (simp add: join_Cons)
  qed
qed

lemma lstrip_id: "s = [] \<or> \<not> isspace (hd s) \<Longrightarrow> lstrip s = s"
  by (cases s) (auto simp: lstrip_def)

lemma rstrip_id: "s = [] \<or> \<not> isspace (last s) \<Longrightarrow> rstrip s = s"
  by (cases s rule: rev_cases) (auto simp: rstrip_def)

lemma rstrip_append:
  "rstrip (a @ b) = (if rstrip b = [] then rstrip a else a @ rstrip b)"
  by (auto simp: rstrip_def dropWhile_append dropWhile_eq_Nil_conv)

lemma rstrip_space: "isspace c \<Longrightarrow> rstrip [c] = []"
  by (simp add: rstrip_def)

lemma rstrip_space_Cons:
  "isspace c \<Longrightarrow> rstrip (c # b) = (if rstrip b = [] then [] else c # rstrip b)"
  using rstrip_append[of "[c]" b] by (simp add: rstrip_space)

lemma re_sub_ws_token_append:
  "list_all (\<lambda>c. \<not> isspace c) w \<Longrightarrow> re_sub_ws (w @ r) = w @ re_sub_ws r"
  by (induction w) simp_all

lemma re_sub_ws_space:
  "isspace c \<Longrightarrow> re_sub_ws (c # r) = 32 # re_sub_ws (lstrip r)"
  by (simp add: lstrip_def)

lemma lstrip_space: "isspace c \<Longrightarrow> lstrip (c # r) = lstrip r"
  by (simp add: lstrip_def)

lemma lstrip_hd: "lstrip s = [] \<or> \<not> isspace (hd (lstrip s))"
  unfolding lstrip_def by (metis hd_dropWhile)

lemma re_sub_ws_hd: "s = [] \<or> \<not> isspace (hd s) \<Longrightarrow> re_sub_ws s = [] \<or> \<not> isspace (hd (re_sub_ws s))"
  by (cases s) auto

lemma lstrip_re_sub_ws: "lstrip (re_sub_ws s) = re_sub_ws (lstrip s)"
proof (cases s)
  case Nil
  then show ?thesis by (simp add: lstrip_def)
next
  case (Cons c cs)
  show ?thesis
  proof (cases "isspace c")
    case True
    have "lstrip (re_sub_ws (lstrip cs)) = re_sub_ws (lstrip cs)"
      by (rule lstrip_id) (rule re_sub_ws_hd, rule lstrip_hd)
    with True Cons show ?thesis
      by (simp add: re_sub_ws_space lstrip_space isspace_32 del: re_sub_ws.simps)
  next
    case False
    with Cons show ?thesis by (simp add: lstrip_def)
  qed
qed

lemma rstrip_re_sub_ws: "rstrip (re_sub_ws (lstrip s)) = join [32] (split_ws s)"
proof (induction s rule: split_ws.induct)
  case 1
  show ?case by (simp add: lstrip_def rstrip_def)
next
  case (2 c cs)
  show ?case
  proof (cases "isspace c")
    case True
    with 2 show ?thesis by (simp add: lstrip_space)
  next
    case False
    define tok where "tok = c # takeWhile (\<lambda>x. \<not> isspace x) cs"
    define rest where "rest = dropWhile (\<lambda>x. \<not> isspace x) cs"
    have s: "c # cs = tok @ rest" by (simp add: tok_def rest_def)
    have tok: "list_all (\<lambda>x. \<not> isspace x) tok" "tok \<noteq> []"
      using False by (simp_all add: tok_def list_all_takeWhile)
    have sp: "split_ws (c # cs) = tok # split_ws rest"
      using False by (simp add: tok_def rest_def)
    have ih: "rstrip (re_sub_ws (lstrip rest)) = join [32] (split_ws rest)"
      using 2(2) False by (simp add: rest_def)
    have ls: "lstrip (c # cs) = c # cs" using False by (simp add: lstrip_def)
    have r1: "re_sub_ws (c # cs) = tok @ re_sub_ws rest"
      unfolding s using tok(1) by (rule re_sub_ws_token_append)
    have tokr: "rstrip tok = tok"
      using tok by (intro rstrip_id) (auto simp: list_all_iff)
    show ?thesis
    proof (cases rest)
      case Nil
      with r1 sp ls tokr show ?thesis by simp
    next
      case (Cons r rs)
      have "isspace r"
        using Cons hd_dropWhile[of "\<lambda>x. \<not> isspace x" cs] by (simp add: rest_def)
      then have r2: "re_sub_ws rest = 32 # re_sub_ws (lstrip rest)"
        unfolding Cons by (simp add: lstrip_def)
      have "rstrip (re_sub_ws (c # cs)) = rstrip (tok @ [32] @ re_sub_ws (lstrip rest))"
        by (simp only: r1 r2 append_Cons append_Nil)
      also have "\<dots> = (if split_ws rest = [] then tok else tok @ [32] @ join [32] (split_ws rest))"
        using ih tokr
        by (simp add: rstrip_append[of tok] rstrip_space_Cons isspace_32
            join_eq_Nil token_split_ws)
      finally have fin: "rstrip (re_sub_ws (c # cs)) = join [32] (tok # split_ws rest)"
        by (simp only: join_Cons)
      show ?thesis unfolding ls sp by (rule fin)
    qed
  qed
qed

lemma clean_text_join_split: "clean_text s = join [32] (split_ws s)"
  by (simp add: clean_text_def strip_def lstrip_re_sub_ws rstrip_re_sub_ws)

lemma no_double_ws_nth:
  "no_double_ws r \<Longrightarrow> Suc i < length r \<Longrightarrow> \<not> (isspace (r ! i) \<and> isspace (r ! Suc i))"
proof (induction r arbitrary: i rule: no_double_ws.induct)
  case (3 a b cs)
  then show ?case by (cases i) auto
qed simp_all

lemma no_double_ws_token_append:
  "list_all (\<lambda>c. \<not> isspace c) w \<Longrightarrow> no_double_ws (w @ r) = no_double_ws r"
proof (induction w)
  case Nil
  show ?case by simp
next
  case (Cons a w)
  then have ih: "no_double_ws (w @ r) = no_double_ws r" and a: "\<not> isspace a" by simp_all
  show ?case
  proof (cases "w @ r")
    case Nil
    then show ?thesis by simp
  next
    case (Cons b cs)
    with ih a show ?thesis by simp
  qed
qed

lemma no_double_ws_space:
  "r = [] \<or> \<not> isspace (hd r) \<Longrightarrow> no_double_ws (c # r) = no_double_ws r"
  by (cases r) auto

lemma no_double_ws_join: "list_all token ws \<Longrightarrow> no_double_ws (join [32] ws)"
proof (induction ws)
  case Nil
  show ?case by simp
next
  case (Cons w ws)
  from Cons.prems have tw: "token w" and ws: "list_all token ws" by simp_all
  from tw have w: "list_all (\<lambda>c. \<not> isspace c) w" by (simp add: token_def)
  from Cons.IH ws have ih: "no_double_ws (join [32] ws)" by simp
  show ?case
  proof (cases "ws = []")
    case True
    with no_double_ws_token_append[OF w, of "[]"] show ?thesis by simp
  next
    case False
    have "no_double_ws (32 # join [32] ws)"
      using ih hd_join[OF ws False] by (simp add: no_double_ws_space)
    with False show ?thesis
      by (simp add: join_Cons no_double_ws_token_append[OF w])
  qed
qed

lemma spaces_join:
  "list_all token ws \<Longrightarrow> c \<in> set (join [32] ws) \<Longrightarrow> isspace c \<Longrightarrow> c = 32"
proof (induction ws)
  case Nil
  then show ?case by simp
next
  case (Cons w ws)
  then show ?case
    by (cases "ws = []") (auto simp: join_Cons token_def list_all_iff)
qed

lemma ends_join:
  "list_all token ws \<Longrightarrow>
     join [32] ws = [] \<or> (\<not> isspace (hd (join [32] ws)) \<and> \<not> isspace (last (join [32] ws)))"
  using hd_join[of ws "[32]"] last_join[of ws "[32]"] by (cases "ws = []") auto

section \<open>Claims about the text normalizer\<close>

text \<open>
  C7. For every string \<open>t\<close>, \<open>clean_text t\<close> has no leading and no trailing whitespace
  and no two consecutive whitespace characters; it is the words of \<open>t\<close> joined by single
  spaces, so every run of whitespace between two words has become one space, and the only
  whitespace character left is the space. \<open>clean_text\<close> is a total function.
\<close>

theorem clean_text_normalized:
  "clean_text t = join [32] (split_ws t)
   \<and> (clean_text t = [] \<or> (\<not> isspace (hd (clean_text t)) \<and> \<not> isspace (last (clean_text t))))
   \<and> (\<forall>i. Suc i < length (clean_text t)
          \<longrightarrow> \<not> (isspace (clean_text t ! i) \<and> isspace (clean_text t ! Suc i)))
   \<and> (\<forall>c \<in> set (clean_text t). isspace c \<longrightarrow> c = 32)"
proof -
  have tk: "list_all token (split_ws t)" by (rule token_split_ws)
  have eq: "clean_text t = join [32] (split_ws t)" by (rule clean_text_join_split)
  have a: "clean_text t = [] \<or> (\<not> isspace (hd (clean_text t)) \<and> \<not> isspace (last (clean_text t)))"
    unfolding eq by (rule ends_join[OF tk])
  have b: "\<forall>i. Suc i < length (clean_text t)
          \<longrightarrow> \<not> (isspace (clean_text t ! i) \<and> isspace (clean_text t ! Suc i))"
    unfolding eq using no_double_ws_nth[OF no_double_ws_join[OF tk]] by blast
  have c: "\<forall>c \<in> set (clean_text t). isspace c \<longrightarrow> c = 32"
    unfolding eq using spaces_join[OF tk] by blast
  from eq a b c show ?thesis by blast
qed

theorem clean_text_normalized_witness:
  "clean_text [32, 97, 9, 10, 98, 32] = [97, 32, 98]
   \<and> split_ws [32, 97, 9, 10, 98, 32] = [[97], [98]]
   \<and> \<not> isspace (hd [97, 32, 98 :: nat]) \<and> \<not> isspace (last [97, 32, 98 :: nat])
   \<and> isspace ([97, 32, 98] ! 1) \<and> \<not> isspace ([97, 32, 98] ! 2)"
  using clean_text_normalized[of "[32, 97, 9, 10, 98, 32]"]
  by (simp add: isspace_def)

section \<open>The chunker as a list of windows\<close>

lemma split_ws_token_append:
  assumes "token w" and "r = [] \<or> isspace (hd r)"
  shows "split_ws (w @ r) = w # split_ws r"
proof -
  from assms(1) obtain c w' where w: "w = c # w'" and c: "\<not> isspace c"
    and w': "\<forall>x\<in>set w'. \<not> isspace x"
    by (cases w) (auto simp: token_def list_all_iff)
  have r: "takeWhile (\<lambda>x. \<not> isspace x) r = []" "dropWhile (\<lambda>x. \<not> isspace x) r = r"
    using assms(2) by (cases r; simp)+
  have "takeWhile (\<lambda>x. \<not> isspace x) (w' @ r) = w'"
    using w' r(1) by (simp add: takeWhile_append2)
  moreover have "dropWhile (\<lambda>x. \<not> isspace x) (w' @ r) = r"
    using w' r(2) by (simp add: dropWhile_append2)
  ultimately show ?thesis using c by (simp add: w)
qed

lemma split_ws_join: "list_all token ws \<Longrightarrow> split_ws (join [32] ws) = ws"
proof (induction ws)
  case Nil
  show ?case by simp
next
  case (Cons w ws)
  from Cons.prems have tw: "token w" and ws: "list_all token ws" by simp_all
  from Cons.IH ws have ih: "split_ws (join [32] ws) = ws" by simp
  show ?case
  proof (cases "ws = []")
    case True
    with split_ws_token_append[OF tw, of "[]"] show ?thesis by simp
  next
    case False
    have "split_ws (w @ 32 # join [32] ws) = w # split_ws (32 # join [32] ws)"
      by (rule split_ws_token_append[OF tw]) (simp add: isspace_32)
    also have "split_ws (32 # join [32] ws) = ws"
      using ih by (simp add: isspace_32)
    finally show ?thesis using False by (simp add: join_Cons)
  qed
qed

lemma clean_text_join: "list_all token ws \<Longrightarrow> clean_text (join [32] ws) = join [32] ws"
  by (simp add: clean_text_join_split split_ws_join)

lemma foldl_chunk_step:
  "foldl (chunk_step words n) acc idxs =
     acc @ filter (\<lambda>c. c \<noteq> []) (map (\<lambda>i. join [32] (py_slice words i (i + n))) idxs)"
  by (induction idxs arbitrary: acc) (simp_all add: chunk_step_def)

lemma py_slice_window:
  "0 \<le> n \<Longrightarrow> py_slice xs (int i) (int i + n) = take (nat n) (drop i xs)"
proof (cases "i \<le> length xs")
  case True
  assume n: "0 \<le> n"
  have "nat (min (int i + n) (int (length xs)) - int i) = min (nat n) (length xs - i)"
    using True n by (simp add: min_def) linarith
  with True n show ?thesis by (simp add: py_slice_def min_def)
next
  case False
  assume n: "0 \<le> n"
  with False show ?thesis by (simp add: py_slice_def min_def)
qed

lemma py_range_pos:
  assumes "0 < step"
  shows "py_range 0 (int n) step =
           Inr (map (\<lambda>k. int (k * nat step)) [0..<(n + nat step - 1) div nat step])"
proof -
  define s where "s = nat step"
  have s: "step = int s" "0 < s" using assms by (simp_all add: s_def)
  show ?thesis
  proof (cases n)
    case 0
    with s show ?thesis by (simp add: py_range_def)
  next
    case (Suc m)
    have "(int (Suc m) - 1) div int s = int (m div s)" by (simp add: zdiv_int)
    then have a: "nat ((int (Suc m) - 1) div int s + 1) = m div s + 1" by simp
    have b: "(Suc m + s - 1) div s = m div s + 1" using s(2) by simp
    have "py_range 0 (int (Suc m)) (int s) =
            Inr (map (\<lambda>k. 0 + int k * int s) [0..<nat ((int (Suc m) - 0 - 1) div int s + 1)])"
      using s(2) by (simp add: py_range_def)
    also have "\<dots> = Inr (map (\<lambda>k. int (k * s)) [0..<m div s + 1])"
      using a by simp
    finally show ?thesis using b s(1) Suc by simp
  qed
qed

lemma window_index:
  assumes "0 < s" and "k < (n + s - 1) div s"
  shows "k * s < (n::nat)"
proof (rule ccontr)
  assume "\<not> k * s < n"
  then have "n + s - 1 < (k + 1) * s" using assms(1) by simp
  then have "(n + s - 1) div s < k + 1" using assms(1)
    by (simp add: div_less_iff_less_mult)
  with assms(2) show False by simp
qed

lemma window_cover:
  assumes "0 < s"
  shows "(n::nat) \<le> ((n + s - 1) div s) * s"
proof -
  have "n + s - 1 < ((n + s - 1) div s + 1) * s"
    using assms by (metis Suc_eq_plus1 dividend_less_div_times add.commute mult.commute mult_Suc)
  then show ?thesis using assms by simp
qed

lemma list_all_token_window:
  "list_all token xs \<Longrightarrow> list_all token (take a (drop b xs))"
  by (auto simp: list_all_iff dest: in_set_takeD in_set_dropD)

lemma chunk_text_windows:
  assumes "0 \<le> overlap" and "overlap < chunk_size"
  shows "chunk_text t chunk_size overlap =
           Inr (map (\<lambda>k. join [32] (take (nat chunk_size)
                                      (drop (k * nat (chunk_size - overlap)) (split_ws t))))
                  [0..<(length (split_ws t) + nat (chunk_size - overlap) - 1)
                        div nat (chunk_size - overlap)])"
proof -
  define xs where "xs = split_ws t"
  define s where "s = nat (chunk_size - overlap)"
  define m where "m = (length xs + s - 1) div s"
  have s: "0 < s" and cs: "0 \<le> chunk_size" using assms by (simp_all add: s_def)
  have tk: "list_all token xs" by (simp add: xs_def token_split_ws)
  have r: "py_range 0 (int (length xs)) (chunk_size - overlap) =
             Inr (map (\<lambda>k. int (k * s)) [0..<m])"
    using py_range_pos[of "chunk_size - overlap" "length xs"] assms
    by (simp add: s_def m_def)
  have ne: "join [32] (take (nat chunk_size) (drop (k * s) xs)) \<noteq> []" if "k < m" for k
  proof -
    from that have "k * s < length xs" unfolding m_def by (rule window_index[OF s])
    then have "take (nat chunk_size) (drop (k * s) xs) \<noteq> []" using assms by simp
    then show ?thesis
      by (simp add: join_eq_Nil list_all_token_window[OF tk])
  qed
  have "foldl (chunk_step xs chunk_size) [] (map (\<lambda>k. int (k * s)) [0..<m]) =
          filter (\<lambda>c. c \<noteq> [])
            (map (\<lambda>k. join [32] (take (nat chunk_size) (drop (k * s) xs))) [0..<m])"
    by (simp add: foldl_chunk_step py_slice_window[OF cs] comp_def del: of_nat_mult)
  also have "\<dots> = map (\<lambda>k. join [32] (take (nat chunk_size) (drop (k * s) xs))) [0..<m]"
    by (rule filter_True) (auto simp: ne)
  finally show ?thesis
    unfolding chunk_text_def Let_def xs_def[symmetric] r s_def[symmetric] m_def[symmetric]
    by simp
qed

lemma chunk_text_zero_step: "chunk_text t n n = Inl ValueError"
  by (simp add: chunk_text_def py_range_def)

lemma chunk_text_negative_step: "chunk_size < overlap \<Longrightarrow> chunk_text t chunk_size overlap = Inr []"
  by (simp add: chunk_text_def py_range_def)

lemma concat_windows:
  "concat (map (\<lambda>k. take s (drop (k * s) ys)) [0..<q]) = take (q * s) ys"
proof (induction q)
  case 0
  show ?case by simp
next
  case (Suc q)
  have "take (q * s) ys @ take s (drop (q * s) ys) = take (q * s + s) ys"
    by (simp add: take_add)
  with Suc show ?case by (simp add: add.commute)
qed

section \<open>Claims about the chunker\<close>

lemma dedup_concat_windows:
  assumes tk: "list_all token xs" and s: "0 < s"
  shows "dedup_concat ov
           (map (\<lambda>k. join [32] (take (s + ov) (drop (k * s) xs)))
              [0..<(length xs + s - 1) div s]) = xs"
proof -
  define m where "m = (length xs + s - 1) div s"
  define f where "f = (\<lambda>k. join [32] (take (s + ov) (drop (k * s) xs)))"
  have sp: "split_ws (f k) = take (s + ov) (drop (k * s) xs)" for k
    unfolding f_def by (rule split_ws_join) (rule list_all_token_window[OF tk])
  show ?thesis
  proof (cases m)
    case 0
    have "length xs \<le> m * s" unfolding m_def by (rule window_cover[OF s])
    with 0 have "xs = []" by simp
    then show ?thesis unfolding m_def[symmetric] 0 by simp
  next
    case (Suc q)
    have cover: "length xs \<le> Suc q * s"
      using window_cover[OF s, of "length xs"] Suc by (simp add: m_def)
    have idx: "[0..<Suc q] = 0 # map Suc [0..<q]"
      by (simp add: upt_conv_Cons map_Suc_upt del: upt_Suc)
    have tail: "drop ov (split_ws (f (Suc k))) = take s (drop (k * s) (drop (s + ov) xs))" for k
      by (simp add: sp drop_take ac_simps)
    have "dedup_concat ov (map f [0..<Suc q]) =
            split_ws (f 0) @ concat (map (\<lambda>k. drop ov (split_ws (f (Suc k)))) [0..<q])"
      unfolding idx by (simp add: comp_def)
    also have "\<dots> = take (s + ov) xs @ take (q * s) (drop (s + ov) xs)"
      unfolding tail by (simp only: sp concat_windows mult_0 drop_0)
    also have "\<dots> = xs"
    proof -
      have "length (drop (s + ov) xs) \<le> q * s" using cover by simp
      then have "take (q * s) (drop (s + ov) xs) = drop (s + ov) xs" by simp
      then show ?thesis by simp
    qed
    finally show ?thesis unfolding f_def m_def[symmetric] Suc .
  qed
qed

text \<open>
  C4. For every text \<open>t\<close> and all parameters with \<open>chunk_size > overlap \<ge> 0\<close>,
  \<open>chunk_text\<close> returns chunks, and concatenating the words of the first chunk with the
  words of every later chunk after its first \<open>overlap\<close> words gives exactly the words
  of \<open>t\<close>.
\<close>

theorem chunks_reconstruct_words:
  assumes "0 \<le> overlap" and "overlap < chunk_size"
  shows "\<exists>cs. chunk_text t chunk_size overlap = Inr cs
              \<and> dedup_concat (nat overlap) cs = split_ws t"
proof -
  have n: "nat chunk_size = nat (chunk_size - overlap) + nat overlap"
    using assms by simp
  have "dedup_concat (nat overlap)
          (map (\<lambda>k. join [32] (take (nat (chunk_size - overlap) + nat overlap)
                                  (drop (k * nat (chunk_size - overlap)) (split_ws t))))
             [0..<(length (split_ws t) + nat (chunk_size - overlap) - 1)
                   div nat (chunk_size - overlap)]) = split_ws t"
    by (rule dedup_concat_windows) (use assms in \<open>simp_all add: token_split_ws\<close>)
  then show ?thesis
    unfolding chunk_text_windows[OF assms] n[symmetric] by simp
qed

theorem chunks_reconstruct_words_witness:
  "chunk_text [97, 32, 98, 32, 99, 32, 100, 32, 101] 3 1
     = Inr [[97, 32, 98, 32, 99], [99, 32, 100, 32, 101], [101]]
   \<and> dedup_concat 1 [[97, 32, 98, 32, 99], [99, 32, 100, 32, 101], [101]]
     = [[97], [98], [99], [100], [101]]
   \<and> split_ws [97, 32, 98, 32, 99, 32, 100, 32, 101] = [[97], [98], [99], [100], [101]]"
proof -
  have w: "split_ws [97, 32, 98, 32, 99, 32, 100, 32, 101] = [[97], [98], [99], [100], [101]]"
    by (simp add: isspace_def)
  have u: "[0..<3] = [0, 1, 2]"
    by (simp add: numeral_3_eq_3)
  have e: "chunk_text [97, 32, 98, 32, 99, 32, 100, 32, 101] 3 1
     = Inr [[97, 32, 98, 32, 99], [99, 32, 100, 32, 101], [101]]"
    unfolding chunk_text_def w Let_def
    by (simp add: py_range_def u py_slice_def chunk_step_def Let_def)
  from chunks_reconstruct_words[of 1 3 "[97, 32, 98, 32, 99, 32, 100, 32, 101]"]
  show ?thesis unfolding e w by simp
qed

text \<open>
  C10. For every string \<open>t\<close>, normalized or not, and all parameters with
  \<open>chunk_size > overlap \<ge> 0\<close>, \<open>chunk_text\<close> returns chunks, and every chunk \<open>c\<close> is a
  fixed point of \<open>clean_text\<close>: it is not empty, has no leading or trailing whitespace and
  no two consecutive whitespace characters.
\<close>

theorem chunks_are_normalized:
  assumes "0 \<le> overlap" and "overlap < chunk_size"
  shows "\<exists>cs. chunk_text t chunk_size overlap = Inr cs
              \<and> (\<forall>c \<in> set cs. clean_text c = c \<and> c \<noteq> []
                     \<and> \<not> isspace (hd c) \<and> \<not> isspace (last c)
                     \<and> (\<forall>i. Suc i < length c \<longrightarrow> \<not> (isspace (c ! i) \<and> isspace (c ! Suc i))))"
proof -
  define s where "s = nat (chunk_size - overlap)"
  define xs where "xs = split_ws t"
  have tk: "list_all token xs" by (simp add: xs_def token_split_ws)
  have s: "0 < s" using assms by (simp add: s_def)
  have good: "clean_text c = c \<and> c \<noteq> [] \<and> \<not> isspace (hd c) \<and> \<not> isspace (last c)
       \<and> (\<forall>i. Suc i < length c \<longrightarrow> \<not> (isspace (c ! i) \<and> isspace (c ! Suc i)))"
    if k: "k < (length xs + s - 1) div s"
      and c: "c = join [32] (take (nat chunk_size) (drop (k * s) xs))" for k c
  proof -
    define ws where "ws = take (nat chunk_size) (drop (k * s) xs)"
    have wk: "list_all token ws" unfolding ws_def by (rule list_all_token_window[OF tk])
    have "k * s < length xs" using k by (rule window_index[OF s])
    then have ne: "ws \<noteq> []" using assms by (simp add: ws_def)
    have c': "c = join [32] ws" by (simp add: c ws_def)
    have 1: "clean_text c = c" unfolding c' by (rule clean_text_join[OF wk])
    have 2: "c \<noteq> []" unfolding c' using ne by (simp add: join_eq_Nil[OF wk])
    have 3: "\<not> isspace (hd c)" unfolding c' by (rule hd_join[OF wk ne])
    have 4: "\<not> isspace (last c)" unfolding c' by (rule last_join[OF wk ne])
    have 5: "\<forall>i. Suc i < length c \<longrightarrow> \<not> (isspace (c ! i) \<and> isspace (c ! Suc i))"
      unfolding c' using no_double_ws_nth[OF no_double_ws_join[OF wk]] by blast
    from 1 2 3 4 5 show ?thesis by blast
  qed
  show ?thesis
    unfolding chunk_text_windows[OF assms] s_def[symmetric] xs_def[symmetric]
    using good by auto
qed

theorem chunks_are_normalized_witness:
  "chunk_text [32, 97, 9, 10, 98, 32, 32, 99] 2 1 = Inr [[97, 32, 98], [98, 32, 99], [99]]
   \<and> clean_text [97, 32, 98] = [97, 32, 98]
   \<and> clean_text [98, 32, 99] = [98, 32, 99]
   \<and> clean_text [99] = [99]"
proof -
  have w: "split_ws [32, 97, 9, 10, 98, 32, 32, 99] = [[97], [98], [99]]"
    by (simp add: isspace_def)
  have u: "[0..<3] = [0, 1, 2]"
    by (simp add: numeral_3_eq_3)
  have e: "chunk_text [32, 97, 9, 10, 98, 32, 32, 99] 2 1 = Inr [[97, 32, 98], [98, 32, 99], [99]]"
    unfolding chunk_text_def w Let_def
    by (simp add: py_range_def u py_slice_def chunk_step_def Let_def)
  from chunks_are_normalized[of 1 2 "[32, 97, 9, 10, 98, 32, 32, 99]"]
  show ?thesis unfolding e by simp
qed

text \<open>
  C2, as the code has it. For every text \<open>t\<close> with at least one word and at most
  \<open>chunk_size - overlap\<close> words, where \<open>overlap \<ge> 0\<close>, \<open>chunk_text\<close> returns exactly one
  chunk: the words of \<open>t\<close> joined by single spaces, which is \<open>clean_text t\<close>, and so \<open>t\<close>
  itself when \<open>t\<close> is normalized.
\<close>

theorem short_text_single_chunk:
  assumes "0 \<le> overlap" and "split_ws t \<noteq> []"
    and "int (length (split_ws t)) \<le> chunk_size - overlap"
  shows "chunk_text t chunk_size overlap = Inr [clean_text t]"
proof -
  define s where "s = nat (chunk_size - overlap)"
  define n where "n = length (split_ws t)"
  have n: "0 < n" "n \<le> s" "n \<le> nat chunk_size"
    using assms by (simp_all add: n_def s_def)
  then have "(n + s - 1) div s = 1"
    by (simp add: div_eq_dividend_iff div_nat_eqI)
  then have m: "[0..<(n + s - 1) div s] = [0]" by simp
  have lt: "overlap < chunk_size" using assms by (cases "split_ws t") auto
  show ?thesis
    unfolding chunk_text_windows[OF assms(1) lt] s_def[symmetric] n_def[symmetric] m
    using n(3) by (simp add: n_def clean_text_join_split)
qed

theorem short_text_single_chunk_witness:
  "chunk_text [97, 32, 98, 32, 99] 5 2 = Inr [[97, 32, 98, 32, 99]]"
proof -
  have w: "split_ws [97, 32, 98, 32, 99] = [[97], [98], [99]]"
    by (simp add: isspace_def)
  have c: "clean_text [97, 32, 98, 32, 99] = [97, 32, 98, 32, 99]"
    unfolding clean_text_join_split w by simp
  from short_text_single_chunk[of 2 "[97, 32, 98, 32, 99]" 5]
  show ?thesis unfolding w c by simp
qed

theorem short_text_single_chunk_counterexample:
  "length (split_ws [97, 32, 98, 32, 99]) < 5
   \<and> chunk_text [97, 32, 98, 32, 99] 5 4 = Inr [[97, 32, 98, 32, 99], [98, 32, 99], [99]]
   \<and> length (split_ws [32, 97]) < 5
   \<and> chunk_text [32, 97] 5 0 = Inr [[97]]"
proof -
  have w: "split_ws [97, 32, 98, 32, 99] = [[97], [98], [99]]"
    by (simp add: isspace_def)
  have v: "split_ws [32, 97] = [[97]]"
    by (simp add: isspace_def)
  have u: "[0..<3] = [0, 1, 2]"
    by (simp add: numeral_3_eq_3)
  have a: "chunk_text [97, 32, 98, 32, 99] 5 4 = Inr [[97, 32, 98, 32, 99], [98, 32, 99], [99]]"
    unfolding chunk_text_def w Let_def
    by (simp add: py_range_def u py_slice_def chunk_step_def Let_def)
  have b: "chunk_text [32, 97] 5 0 = Inr [[97]]"
    unfolding chunk_text_def v Let_def
    by (simp add: py_range_def py_slice_def chunk_step_def Let_def)
  show ?thesis unfolding w v using a b by simp
qed

text \<open>
  C3, as the code has it. \<open>chunk_text\<close> validates nothing. With \<open>overlap = chunk_size\<close> the
  step of the range is zero and every call fails with \<open>ValueError\<close>, raised by the
  range when chunking starts; with \<open>overlap > chunk_size\<close> the step is negative, the range
  is empty and every call returns the empty list of chunks without any error. In both cases
  the call returns.
\<close>

theorem overlap_not_less_than_chunk_size:
  "chunk_size \<le> overlap \<longrightarrow>
     chunk_text t chunk_size overlap =
       (if overlap = chunk_size then Inl ValueError else Inr [])"
  using chunk_text_zero_step[of t chunk_size] chunk_text_negative_step[of chunk_size overlap t]
  by auto

theorem overlap_not_less_than_chunk_size_witness:
  "chunk_text [97, 32, 98] 2 2 = Inl ValueError \<and> chunk_text [97, 32, 98] 2 5 = Inr []"
  using overlap_not_less_than_chunk_size[of 2 2 "[97, 32, 98]"]
    overlap_not_less_than_chunk_size[of 2 5 "[97, 32, 98]"]
  by simp

theorem overlap_not_less_than_chunk_size_counterexample:
  "chunk_text [97, 32, 98] 2 3 = Inr []"
  by (simp add: chunk_text_def py_range_def)

section \<open>Sorting in descending order and slicing\<close>

lemma sorted_reverse_descending:
  "sorted_wrt (\<lambda>a b. key b \<le> key a) (sorted_reverse key xs)"
proof -
  have "sorted_wrt (\<lambda>a b. key a \<le> key b) (sort_key key (rev xs))"
    using sorted_sort_key[of key "rev xs"] by (simp add: sorted_map)
  then show ?thesis by (simp add: sorted_reverse_def sorted_wrt_rev)
qed

lemma sorted_reverse_stable:
  "filter (\<lambda>y. key y = k) (sorted_reverse key xs) = filter (\<lambda>y. key y = k) xs"
proof -
  have "filter (\<lambda>y. key y = k) (sorted_reverse key xs) =
          rev (filter (\<lambda>y. key y = k) (sort_key key (rev xs)))"
    by (simp add: sorted_reverse_def rev_filter)
  also have "\<dots> = rev (filter (\<lambda>y. key y = k) (rev xs))"
    by (simp only: sort_key_stable)
  also have "\<dots> = filter (\<lambda>y. key y = k) xs"
    by (simp add: rev_filter)
  finally show ?thesis .
qed

lemma length_sorted_reverse: "length (sorted_reverse key xs) = length xs"
  by (simp add: sorted_reverse_def)

lemma set_sorted_reverse: "set (sorted_reverse key xs) = set xs"
  by (simp add: sorted_reverse_def)

lemma py_slice_from_0:
  "py_slice xs 0 k =
     take (nat (if k < 0 then max (k + int (length xs)) 0 else min k (int (length xs)))) xs"
  by (simp add: py_slice_def Let_def)

lemma length_py_slice_from_0:
  "length (py_slice xs 0 k) \<le> length xs"
  "0 \<le> k \<Longrightarrow> int (length (py_slice xs 0 k)) \<le> k"
  by (simp_all add: py_slice_from_0)

lemma sorted_wrt_nth:
  "sorted_wrt P xs \<Longrightarrow> i < j \<Longrightarrow> j < length xs \<Longrightarrow> P (xs ! i) (xs ! j)"
  by (simp add: sorted_wrt_iff_nth_less)

section \<open>The scored list\<close>

lemma score_chunks_length:
  "score_chunks q chunks = Inr scored \<Longrightarrow> length scored = length chunks"
proof (induction q chunks arbitrary: scored rule: score_chunks.induct)
  case (1 q)
  then show ?case by simp
next
  case (2 q cid body emb rest)
  then show ?case by (auto split: sum.splits)
qed

lemma score_chunks_ids:
  "score_chunks q chunks = Inr scored \<Longrightarrow>
     map (\<lambda>x. (fst x, fst (snd x))) scored = map (\<lambda>x. (fst x, fst (snd x))) chunks"
proof (induction q chunks arbitrary: scored rule: score_chunks.induct)
  case (1 q)
  then show ?case by simp
next
  case (2 q cid body emb rest)
  then show ?case by (auto split: sum.splits)
qed

lemma score_chunks_nth:
  "score_chunks q chunks = Inr scored \<Longrightarrow> i < length chunks \<Longrightarrow>
     cosine_similarity q (snd (snd (chunks ! i))) = Inr (score (scored ! i))"
proof (induction q chunks arbitrary: scored i rule: score_chunks.induct)
  case (1 q)
  then show ?case by simp
next
  case (2 q cid body emb rest)
  then show ?case by (cases i) (auto split: sum.splits simp: score_def)
qed

lemma find_best_match_Inr:
  assumes "find_best_match get_embedding load_chunks question table_name top_k = Inr rs"
  obtains scored where
    "score_chunks (get_embedding question) (load_chunks table_name) = Inr scored"
    "rs = py_slice (sorted_reverse score scored) 0 top_k"
  using assms by (auto simp: find_best_match_def split: sum.splits)

lemma cosine_similarity_zero_norm:
  assumes "x \<noteq> []" and "length x = length y" and "row_norm x = 0 \<or> row_norm y = 0"
  shows "cosine_similarity x y = Inr 0"
proof -
  have z: "v = 0" if "row_norm u = 0" "v \<in> set u" for u :: vec and v
  proof -
    have nn: "\<forall>a \<in> set (map (\<lambda>v. v * v) u). 0 \<le> a" by auto
    have "sum_list (map (\<lambda>v. v * v) u) = 0"
      using that(1) sum_list_nonneg[of "map (\<lambda>v. v * v) u"] nn
      by (simp add: row_norm_def)
    then have "\<forall>a \<in> set (map (\<lambda>v. v * v) u). a = 0"
      using nn sum_list_nonneg_eq_0_iff[of "map (\<lambda>v. v * v) u"] by blast
    with that(2) show ?thesis by auto
  qed
  have n: "normalize_l2 u = u" if "row_norm u = 0" for u
    using that by (simp add: normalize_l2_def handle_zeros_in_scale_def)
  have d0: "dot a b = 0" if "\<forall>v \<in> set a. v = 0" for a b
    using that unfolding dot_def
  proof (induction a arbitrary: b)
    case Nil
    show ?case by simp
  next
    case (Cons v a)
    then show ?case by (cases b) auto
  qed
  have d0': "dot a b = 0" if "\<forall>v \<in> set b. v = 0" for a b
    using that unfolding dot_def
  proof (induction a arbitrary: b)
    case Nil
    show ?case by simp
  next
    case (Cons v a)
    then show ?case by (cases b) auto
  qed
  have "dot (normalize_l2 x) (normalize_l2 y) = 0"
  proof (cases "row_norm x = 0")
    case True
    then show ?thesis using z[OF True] by (simp add: n d0)
  next
    case False
    with assms(3) have y: "row_norm y = 0" by simp
    then show ?thesis using z[OF y] by (simp add: n[OF y] d0')
  qed
  moreover have "y \<noteq> []" using assms(1,2) by auto
  ultimately show ?thesis using assms(1,2) by (simp add: cosine_similarity_def)
qed

section \<open>Claims about the retriever\<close>

lemma take_sorted_keeps_better:
  assumes srt: "sorted_wrt (\<lambda>a b. score b \<le> score a) S"
    and z: "z \<in> set (take m S)" and p: "p \<in> set S" and lt: "score z < score p"
  shows "p \<in> set (take m S)"
proof -
  from z obtain i where i: "i < length (take m S)" "take m S ! i = z"
    by (auto simp: in_set_conv_nth)
  then have i': "i < m" "i < length S" "S ! i = z" by simp_all
  from p obtain j where j: "j < length S" "S ! j = p"
    by (auto simp: in_set_conv_nth)
  have "j < m"
  proof (rule ccontr)
    assume "\<not> j < m"
    with i'(1) have "i < j" by simp
    from sorted_wrt_nth[OF srt this j(1)] have "score p \<le> score z"
      by (simp add: i'(3) j(2))
    with lt show False by simp
  qed
  with j have "j < length (take m S)" "take m S ! j = p" by simp_all
  then show ?thesis by (metis nth_mem)
qed

text \<open>
  C1. Whenever \<open>find_best_match\<close> returns a list, the list is sorted by non-increasing
  score, and for every score the results with that score are the first results with that
  score of the scored collection, in their original order: the sort is stable. The scored
  collection has the identifiers and contents of the loaded chunks in the order of the table.
\<close>

theorem find_best_match_sorted_stable:
  assumes "find_best_match get_embedding load_chunks question table_name top_k = Inr rs"
  shows "(\<forall>i j. i < j \<longrightarrow> j < length rs \<longrightarrow> score (rs ! j) \<le> score (rs ! i))
     \<and> (\<exists>scored.
           score_chunks (get_embedding question) (load_chunks table_name) = Inr scored
         \<and> map (\<lambda>x. (fst x, fst (snd x))) scored
             = map (\<lambda>x. (fst x, fst (snd x))) (load_chunks table_name)
         \<and> (\<forall>s. prefix (filter (\<lambda>r. score r = s) rs) (filter (\<lambda>r. score r = s) scored)))"
proof -
  from assms obtain scored where
    sc: "score_chunks (get_embedding question) (load_chunks table_name) = Inr scored"
    and rs: "rs = py_slice (sorted_reverse score scored) 0 top_k"
    by (rule find_best_match_Inr)
  define S where "S = sorted_reverse score scored"
  obtain m where m: "rs = take m S"
    unfolding rs S_def[symmetric] py_slice_from_0 by blast
  have srt: "sorted_wrt (\<lambda>a b. score b \<le> score a) rs"
    unfolding m S_def by (rule sorted_wrt_take) (rule sorted_reverse_descending)
  have 1: "\<forall>i j. i < j \<longrightarrow> j < length rs \<longrightarrow> score (rs ! j) \<le> score (rs ! i)"
    using sorted_wrt_nth[OF srt] by blast
  have 2: "prefix (filter (\<lambda>r. score r = s) rs) (filter (\<lambda>r. score r = s) scored)" for s
  proof -
    have "prefix (filter (\<lambda>r. score r = s) (take m S)) (filter (\<lambda>r. score r = s) S)"
      by (rule filter_mono_prefix) (rule take_is_prefix)
    then show ?thesis by (simp add: m S_def sorted_reverse_stable)
  qed
  from 1 2 sc score_chunks_ids[OF sc] show ?thesis by blast
qed

theorem find_best_match_sorted_stable_witness:
  "find_best_match (\<lambda>q. [1, 0]) (\<lambda>t. [(1, [97], [1, 0]), (2, [98], [0, 1]), (3, [99], [1, 0])])
       [113] () 2
     = Inr [(1, [97], 1), (3, [99], 1)]
   \<and> score (3, [99], 1) \<le> score (1, [97], 1)
   \<and> prefix (filter (\<lambda>r. score r = 1) [(1, [97], 1), (3, [99], 1)])
        (filter (\<lambda>r. score r = 1) [(1, [97], 1), (2, [98], 0), (3, [99], 1)])"
proof -
  have e: "find_best_match (\<lambda>q. [1, 0])
             (\<lambda>t. [(1, [97], [1, 0]), (2, [98], [0, 1]), (3, [99], [1, 0])]) [113] () 2
           = Inr [(1, [97], 1), (3, [99], 1)]"
    by (simp add: find_best_match_def cosine_similarity_def normalize_l2_def handle_zeros_in_scale_def row_norm_def
        dot_def sorted_reverse_def score_def py_slice_def)
  have sc: "score_chunks [1, 0] [(1, [97], [1, 0]), (2, [98], [0, 1]), (3, [99], [1, 0])]
           = Inr [(1, [97], 1), (2, [98], 0), (3, [99], 1)]"
    by (simp add: cosine_similarity_def normalize_l2_def handle_zeros_in_scale_def row_norm_def dot_def)
  note t = find_best_match_sorted_stable[OF e]
  from t have a: "\<forall>i j. i < j \<longrightarrow> j < length [(1 :: int, [97 :: nat], 1 :: real), (3, [99], 1)]
       \<longrightarrow> score ([(1, [97], 1), (3, [99], 1)] ! j) \<le> score ([(1, [97], 1), (3, [99], 1)] ! i)"
    by (rule conjunct1)
  from t obtain scored where
    s1: "score_chunks [1, 0] [(1, [97], [1, 0]), (2, [98], [0, 1]), (3, [99], [1, 0])] = Inr scored"
    and s2: "\<forall>s. prefix (filter (\<lambda>r. score r = s) [(1, [97], 1), (3, [99], 1)])
               (filter (\<lambda>r. score r = s) scored)"
    by blast
  from s1 sc have s3: "scored = [(1, [97], 1), (2, [98], 0), (3, [99], 1)]" by simp
  from a[rule_format, of 0 1]
  have b: "score ([(1, [97], 1), (3, [99], 1)] ! 1) \<le> score ([(1, [97], 1), (3, [99], 1)] ! 0)"
    by simp
  from s2[rule_format, of 1] s3 b
  have "score ([(1, [97], 1), (3, [99], 1)] ! 1) \<le> score ([(1, [97], 1), (3, [99], 1)] ! 0)
      \<and> prefix (filter (\<lambda>r. score r = 1) [(1, [97], 1), (3, [99], 1)])
        (filter (\<lambda>r. score r = 1) [(1, [97], 1), (2, [98], 0), (3, [99], 1)])"
    by simp
  with e show ?thesis by simp
qed

text \<open>
  C6. \<open>find_best_match\<close> on an empty collection returns the empty list and no error.
  Whenever it returns a list, the list has at most as many results as the collection has
  records, and at most \<open>top_k\<close> results for a count \<open>top_k \<ge> 0\<close>.
\<close>

theorem find_best_match_length:
  "(load_chunks table_name = [] \<longrightarrow>
      find_best_match get_embedding load_chunks question table_name top_k = Inr [])
   \<and> (\<forall>rs. find_best_match get_embedding load_chunks question table_name top_k = Inr rs \<longrightarrow>
          length rs \<le> length (load_chunks table_name)
          \<and> (0 \<le> top_k \<longrightarrow> int (length rs) \<le> top_k))"
proof -
  have a: "find_best_match get_embedding load_chunks question table_name top_k = Inr []"
    if "load_chunks table_name = []"
    using that by (simp add: find_best_match_def sorted_reverse_def py_slice_def)
  have b: "length rs \<le> length (load_chunks table_name)
          \<and> (0 \<le> top_k \<longrightarrow> int (length rs) \<le> top_k)"
    if "find_best_match get_embedding load_chunks question table_name top_k = Inr rs" for rs
  proof -
    from that obtain scored where
      sc: "score_chunks (get_embedding question) (load_chunks table_name) = Inr scored"
      and rs: "rs = py_slice (sorted_reverse score scored) 0 top_k"
      by (rule find_best_match_Inr)
    have "length rs \<le> length scored"
      unfolding rs using length_py_slice_from_0(1)[of "sorted_reverse score scored" top_k]
      by (simp add: length_sorted_reverse)
    moreover have "0 \<le> top_k \<longrightarrow> int (length rs) \<le> top_k"
      unfolding rs using length_py_slice_from_0(2) by blast
    ultimately show ?thesis using score_chunks_length[OF sc] by simp
  qed
  from a b show ?thesis by blast
qed

theorem find_best_match_length_witness:
  "find_best_match (\<lambda>q. [1, 0]) (\<lambda>t. []) [113] () 2 = Inr []
   \<and> find_best_match (\<lambda>q. [1, 0]) (\<lambda>t. [(1, [97], [1, 0]), (2, [98], [0, 1]), (3, [99], [1, 0])])
       [113] () 2
     = Inr [(1, [97], 1), (3, [99], 1)]
   \<and> length [(1 :: int, [97 :: nat], 1 :: real), (3, [99], 1)] \<le> 3
   \<and> int (length [(1 :: int, [97 :: nat], 1 :: real), (3, [99], 1)]) \<le> 2"
proof -
  have e: "find_best_match (\<lambda>q. [1, 0])
             (\<lambda>t. [(1, [97], [1, 0]), (2, [98], [0, 1]), (3, [99], [1, 0])]) [113] () 2
           = Inr [(1, [97], 1), (3, [99], 1)]"
    by (simp add: find_best_match_def cosine_similarity_def normalize_l2_def handle_zeros_in_scale_def row_norm_def
        dot_def sorted_reverse_def score_def py_slice_def)
  from find_best_match_length[of "\<lambda>t. []" "()" "\<lambda>q. [1, 0]" "[113]" 2]
    find_best_match_length[of "\<lambda>t. [(1, [97], [1, 0]), (2, [98], [0, 1]), (3, [99], [1, 0])]"
      "()" "\<lambda>q. [1, 0]" "[113]" 2] e
  show ?thesis by simp
qed

text \<open>
  C5. The norm a vector is divided by is never zero. A pair of vectors of the same,
  non-zero dimension in which the query vector or the stored vector has zero norm gets the
  cosine similarity 0, and no error. Whenever
  \<open>find_best_match\<close> returns a list, every record of the collection whose vector, or
  whose query vector, has zero norm is scored 0; a result with score 0 never stands before
  a result with a positive score, and never takes the place of a record with a positive
  score among the results.
\<close>

theorem zero_norm_scores_zero:
  "handle_zeros_in_scale (row_norm x) \<noteq> 0
   \<and> (x \<noteq> [] \<and> length x = length y \<and> (row_norm x = 0 \<or> row_norm y = 0)
      \<longrightarrow> cosine_similarity x y = Inr 0)
   \<and> (find_best_match get_embedding load_chunks question table_name top_k = Inr rs \<longrightarrow>
        (\<exists>scored.
            score_chunks (get_embedding question) (load_chunks table_name) = Inr scored
          \<and> (\<forall>i. i < length (load_chunks table_name)
                  \<and> (row_norm (get_embedding question) = 0
                       \<or> row_norm (snd (snd (load_chunks table_name ! i))) = 0)
                 \<longrightarrow> score (scored ! i) = 0)
          \<and> (\<forall>z p. z \<in> set rs \<and> p \<in> set scored \<and> score z = 0 \<and> 0 < score p
                 \<longrightarrow> p \<in> set rs))
        \<and> (\<forall>i j. i < length rs \<and> j < length rs \<and> score (rs ! i) = 0 \<and> 0 < score (rs ! j)
               \<longrightarrow> j < i))"
proof -
  have A: "cosine_similarity x y = Inr 0"
    if "x \<noteq> [] \<and> length x = length y \<and> (row_norm x = 0 \<or> row_norm y = 0)"
    using that by (intro cosine_similarity_zero_norm) simp_all
  have B: "(\<exists>scored.
            score_chunks (get_embedding question) (load_chunks table_name) = Inr scored
          \<and> (\<forall>i. i < length (load_chunks table_name)
                  \<and> (row_norm (get_embedding question) = 0
                       \<or> row_norm (snd (snd (load_chunks table_name ! i))) = 0)
                 \<longrightarrow> score (scored ! i) = 0)
          \<and> (\<forall>z p. z \<in> set rs \<and> p \<in> set scored \<and> score z = 0 \<and> 0 < score p
                 \<longrightarrow> p \<in> set rs))
        \<and> (\<forall>i j. i < length rs \<and> j < length rs \<and> score (rs ! i) = 0 \<and> 0 < score (rs ! j)
               \<longrightarrow> j < i)"
    if fb: "find_best_match get_embedding load_chunks question table_name top_k = Inr rs"
  proof -
    define q where "q = get_embedding question"
    define chunks where "chunks = load_chunks table_name"
    from fb obtain scored where
      sc: "score_chunks q chunks = Inr scored"
      and rs: "rs = py_slice (sorted_reverse score scored) 0 top_k"
      unfolding q_def chunks_def by (rule find_best_match_Inr)
    define S where "S = sorted_reverse score scored"
    obtain m where m: "rs = take m S"
      unfolding rs S_def[symmetric] py_slice_from_0 by blast
    have srtS: "sorted_wrt (\<lambda>a b. score b \<le> score a) S"
      unfolding S_def by (rule sorted_reverse_descending)
    have srt: "sorted_wrt (\<lambda>a b. score b \<le> score a) rs"
      unfolding m by (rule sorted_wrt_take) (rule srtS)
    have 1: "score (scored ! i) = 0"
      if i: "i < length chunks"
        and z: "row_norm q = 0 \<or> row_norm (snd (snd (chunks ! i))) = 0" for i
    proof -
      have c: "cosine_similarity q (snd (snd (chunks ! i))) = Inr (score (scored ! i))"
        by (rule score_chunks_nth[OF sc i])
      then have "q \<noteq> []" "length q = length (snd (snd (chunks ! i)))"
        by (auto simp: cosine_similarity_def split: if_splits)
      from cosine_similarity_zero_norm[OF this z] c show ?thesis by simp
    qed
    have 2: "p \<in> set rs"
      if "z \<in> set rs" "p \<in> set scored" "score z = 0" "0 < score p" for z p
    proof -
      have "p \<in> set (take m S)"
        by (rule take_sorted_keeps_better[OF srtS, of z])
          (use that m in \<open>simp_all add: S_def set_sorted_reverse\<close>)
      then show ?thesis by (simp add: m)
    qed
    have 3: "j < i"
      if "i < length rs" "j < length rs" "score (rs ! i) = 0" "0 < score (rs ! j)" for i j
    proof (rule ccontr)
      assume "\<not> j < i"
      moreover have "i \<noteq> j" using that by auto
      ultimately have "i < j" by simp
      from sorted_wrt_nth[OF srt this that(2)] that(3,4) show False by simp
    qed
    from sc 1 2 3 show ?thesis unfolding q_def chunks_def by blast
  qed
  have Z: "handle_zeros_in_scale (row_norm x) \<noteq> 0"
    by (simp add: handle_zeros_in_scale_def)
  from Z A B show ?thesis by blast
qed

theorem zero_norm_scores_zero_witness:
  "row_norm [0, 0] = 0
   \<and> cosine_similarity [0, 0] [1, 0] = Inr 0
   \<and> find_best_match (\<lambda>q. [1, 0]) (\<lambda>t. [(1, [97], [0, 0]), (2, [98], [1, 0])]) [113] () 1
       = Inr [(2, [98], 1)]
   \<and> score_chunks [1, 0] [(1, [97], [0, 0]), (2, [98], [1, 0])]
       = Inr [(1, [97], 0), (2, [98], 1)]
   \<and> score (1, [97], 0) = 0"
proof -
  have n: "row_norm [0, 0] = 0" by (simp add: row_norm_def)
  have e: "find_best_match (\<lambda>q. [1, 0]) (\<lambda>t. [(1, [97], [0, 0]), (2, [98], [1, 0])]) [113] () 1
       = Inr [(2, [98], 1)]"
    by (simp add: find_best_match_def cosine_similarity_def normalize_l2_def handle_zeros_in_scale_def row_norm_def
        dot_def sorted_reverse_def score_def py_slice_def)
  have sc: "score_chunks [1, 0] [(1, [97], [0, 0]), (2, [98], [1, 0])]
       = Inr [(1, [97], 0), (2, [98], 1)]"
    by (simp add: cosine_similarity_def normalize_l2_def handle_zeros_in_scale_def row_norm_def dot_def)
  note t = zero_norm_scores_zero[of "[0, 0]" "[1, 0]" "\<lambda>q. [1, 0]"
      "\<lambda>t. [(1, [97], [0, 0]), (2, [98], [1, 0])]" "[113]" "()" 1 "[(2, [98], 1)]"]
  from t n have c: "cosine_similarity [0, 0] [1, 0] = Inr 0" by simp
  from t e obtain scored where
    s1: "score_chunks [1, 0] [(1, [97], [0, 0]), (2, [98], [1, 0])] = Inr scored"
    and s2: "\<forall>i. i < length [(1 :: int, [97 :: nat], [0, 0 :: real]), (2, [98], [1, 0])]
                  \<and> (row_norm [1, 0] = 0
                       \<or> row_norm (snd (snd ([(1 :: int, [97 :: nat], [0, 0]), (2, [98], [1, 0])] ! i))) = 0)
                 \<longrightarrow> score (scored ! i) = 0"
    by blast
  from s2[rule_format, of 0] n have "score (scored ! 0) = 0" by simp
  with s1 sc have z: "score (1, [97], 0) = 0" by simp
  from n c e sc z show ?thesis by simp
qed

section \<open>Claims about ingestion\<close>

lemma chunk_text_default:
  "chunk_text c CHUNK_SIZE CHUNK_OVERLAP =
     Inr (map (\<lambda>k. join [32] (take 1000 (drop (k * 800) (split_ws c))))
            [0..<(length (split_ws c) + 799) div 800])"
  using chunk_text_windows[of 200 1000 c]
  by (simp add: CHUNK_SIZE_def CHUNK_OVERLAP_def add.commute)

lemma split_ws_clean_text: "split_ws (clean_text x) = split_ws x"
  by (simp add: clean_text_join_split split_ws_join token_split_ws)

lemma chunk_text_default_nonempty:
  assumes "clean_text x \<noteq> []"
  shows "\<exists>cs. cs \<noteq> [] \<and> chunk_text (clean_text x) CHUNK_SIZE CHUNK_OVERLAP = Inr cs"
proof -
  have "split_ws x \<noteq> []"
    using assms by (auto simp: clean_text_join_split)
  then have ne: "split_ws (clean_text x) \<noteq> []"
    by (simp add: split_ws_clean_text)
  define n where "n = length (split_ws (clean_text x))"
  have "0 < n" using ne by (simp add: n_def)
  then have "0 < (n + 799) div 800"
    by (simp add: div_greater_zero_iff)
  then have "0 < (length (split_ws (clean_text x)) + 799) div 800"
    by (simp only: n_def)
  then show ?thesis unfolding chunk_text_default by simp
qed

lemma discourse_loop_append:
  "discourse_loop (ps @ qs) acc =
     (case discourse_loop ps acc of Inl e \<Rightarrow> Inl e | Inr acc' \<Rightarrow> discourse_loop qs acc')"
proof (induction ps acc rule: discourse_loop.induct)
  case (1 chunks metadata)
  show ?case by simp
next
  case (2 p posts chunks metadata)
  then show ?case by (simp split: sum.splits)
qed

lemma markdown_loop_append:
  "markdown_loop (fs @ gs) acc =
     (case markdown_loop fs acc of Inl e \<Rightarrow> Inl e | Inr acc' \<Rightarrow> markdown_loop gs acc')"
proof (induction fs acc rule: markdown_loop.induct)
  case (1 chunks metadata)
  show ?case by simp
next
  case (2 f files chunks metadata)
  then show ?case by (simp split: sum.splits)
qed

lemma discourse_loop_drop_short:
  "length (clean_text (post_get_content p)) < 30 \<Longrightarrow>
     discourse_loop (ps @ p # qs) acc = discourse_loop (ps @ qs) acc"
  by (cases acc) (simp add: discourse_loop_append split: sum.splits prod.splits)

lemma markdown_loop_drop_short:
  "length (clean_text (file_text f)) < 30 \<Longrightarrow>
     markdown_loop (fs @ f # gs) acc = markdown_loop (fs @ gs) acc"
  by (cases acc) (simp add: markdown_loop_append split: sum.splits prod.splits)

lemma process_markdown_drop_short:
  assumes "length (clean_text (file_text f)) < 30"
  shows "process_markdown embed_chunks (Some (fs @ f # gs)) table =
           process_markdown embed_chunks (Some (fs @ gs)) table"
proof (cases "endswith_md (file_name f)")
  case False
  then show ?thesis by (simp add: process_markdown_def)
next
  case True
  define md :: "md_file list \<Rightarrow> md_file list"
    where "md = filter (\<lambda>f. endswith_md (file_name f))"
  have f: "md (fs @ f # gs) = md fs @ f # md gs" "md (fs @ gs) = md fs @ md gs"
    using True by (simp_all add: md_def)
  have loop: "markdown_loop (md (fs @ f # gs)) ([], []) = markdown_loop (md (fs @ gs)) ([], [])"
    unfolding f by (rule markdown_loop_drop_short[OF assms])
  show ?thesis
  proof (cases "md (fs @ gs) = []")
    case False
    then have "md (fs @ f # gs) \<noteq> []" by (simp add: f)
    with False loop show ?thesis
      unfolding process_markdown_def md_def[symmetric] by simp
  next
    case Nil: True
    then have "md (fs @ f # gs) = [f]" by (simp add: f)
    then have "markdown_loop (md (fs @ f # gs)) ([], []) = Inr ([], [])"
      using assms by simp
    moreover have "md (fs @ f # gs) \<noteq> []" by (simp add: f)
    ultimately show ?thesis using Nil
      unfolding process_markdown_def md_def[symmetric] by (simp add: insert_rows_def)
  qed
qed

text \<open>
  C8. A post or a markdown file whose normalized content has fewer than 30 characters is
  dropped before chunking: ingestion stores exactly what it stores without that document,
  so no record comes from it. A document with 30 characters or more is chunked with the
  default configuration, which gives at least one chunk, and each chunk is appended with
  the metadata of the document.
\<close>

theorem short_documents_dropped:
  "(length (clean_text (post_get_content p)) < 30 \<longrightarrow>
      process_discourse embed_chunks (Some (ps @ p # qs)) dtable
        = process_discourse embed_chunks (Some (ps @ qs)) dtable)
   \<and> (length (clean_text (file_text f)) < 30 \<longrightarrow>
      process_markdown embed_chunks (Some (fs @ f # gs)) mtable
        = process_markdown embed_chunks (Some (fs @ gs)) mtable)
   \<and> (30 \<le> length (clean_text (post_get_content p)) \<longrightarrow>
        (\<exists>cs. cs \<noteq> []
           \<and> chunk_text (clean_text (post_get_content p)) CHUNK_SIZE CHUNK_OVERLAP = Inr cs
           \<and> discourse_loop (p # qs) (dchunks, dmeta)
               = discourse_loop qs
                   (dchunks @ cs, dmeta @ replicate (length cs) (post_id p, url p))))
   \<and> (30 \<le> length (clean_text (file_text f)) \<longrightarrow>
        (\<exists>cs. cs \<noteq> []
           \<and> chunk_text (clean_text (file_text f)) CHUNK_SIZE CHUNK_OVERLAP = Inr cs
           \<and> markdown_loop (f # gs) (mchunks, mmeta)
               = markdown_loop gs
                   (mchunks @ cs, mmeta @ map (\<lambda>i. (file_name f, i)) [0..<length cs])))"
proof -
  have 1: "process_discourse embed_chunks (Some (ps @ p # qs)) dtable
        = process_discourse embed_chunks (Some (ps @ qs)) dtable"
    if "length (clean_text (post_get_content p)) < 30"
    by (simp add: process_discourse_def discourse_loop_drop_short[OF that])
  have 2: "process_markdown embed_chunks (Some (fs @ f # gs)) mtable
        = process_markdown embed_chunks (Some (fs @ gs)) mtable"
    if "length (clean_text (file_text f)) < 30"
    by (rule process_markdown_drop_short[OF that])
  have 3: "\<exists>cs. cs \<noteq> []
           \<and> chunk_text (clean_text (post_get_content p)) CHUNK_SIZE CHUNK_OVERLAP = Inr cs
           \<and> discourse_loop (p # qs) (dchunks, dmeta)
               = discourse_loop qs
                   (dchunks @ cs, dmeta @ replicate (length cs) (post_id p, url p))"
    if "30 \<le> length (clean_text (post_get_content p))"
  proof -
    from that have "clean_text (post_get_content p) \<noteq> []" by auto
    from chunk_text_default_nonempty[OF this] obtain cs where
      "cs \<noteq> []" "chunk_text (clean_text (post_get_content p)) CHUNK_SIZE CHUNK_OVERLAP = Inr cs"
      by blast
    with that show ?thesis by simp
  qed
  have 4: "\<exists>cs. cs \<noteq> []
           \<and> chunk_text (clean_text (file_text f)) CHUNK_SIZE CHUNK_OVERLAP = Inr cs
           \<and> markdown_loop (f # gs) (mchunks, mmeta)
               = markdown_loop gs
                   (mchunks @ cs, mmeta @ map (\<lambda>i. (file_name f, i)) [0..<length cs])"
    if "30 \<le> length (clean_text (file_text f))"
  proof -
    from that have "clean_text (file_text f) \<noteq> []" by auto
    from chunk_text_default_nonempty[OF this] obtain cs where
      "cs \<noteq> []" "chunk_text (clean_text (file_text f)) CHUNK_SIZE CHUNK_OVERLAP = Inr cs"
      by blast
    with that show ?thesis by simp
  qed
  from 1 2 3 4 show ?thesis by blast
qed

theorem short_documents_dropped_witness:
  "process_discourse (map (\<lambda>c. [1 :: real]))
       (Some [\<lparr>post_id = [49], url = [120], content = Some [104, 105]\<rparr>]) [] = Inr []
   \<and> process_markdown (map (\<lambda>c. [1 :: real]))
       (Some [\<lparr>file_name = [97, 46, 109, 100], file_text = [104, 105]\<rparr>]) [] = Inr []
   \<and> discourse_loop
         [\<lparr>post_id = [49], url = [120], content = Some
            [65, 65, 65, 65, 65, 65, 65, 65, 65, 65, 65, 65, 65, 65, 65,
          65, 65, 65, 65, 65, 65, 65, 65, 65, 65, 65, 65, 65, 65, 65]\<rparr>] ([], [])
       = Inr ([[65, 65, 65, 65, 65, 65, 65, 65, 65, 65, 65, 65, 65, 65, 65,
          65, 65, 65, 65, 65, 65, 65, 65, 65, 65, 65, 65, 65, 65, 65]],
              [([49], [120])])
   \<and> markdown_loop
         [\<lparr>file_name = [97, 46, 109, 100], file_text =
            [65, 65, 65, 65, 65, 65, 65, 65, 65, 65, 65, 65, 65, 65, 65,
          65, 65, 65, 65, 65, 65, 65, 65, 65, 65, 65, 65, 65, 65, 65]\<rparr>] ([], [])
       = Inr ([[65, 65, 65, 65, 65, 65, 65, 65, 65, 65, 65, 65, 65, 65, 65,
          65, 65, 65, 65, 65, 65, 65, 65, 65, 65, 65, 65, 65, 65, 65]],
              [([97, 46, 109, 100], 0)])"
proof -
  let ?A = "[65, 65, 65, 65, 65, 65, 65, 65, 65, 65, 65, 65, 65, 65, 65,
          65, 65, 65, 65, 65, 65, 65, 65, 65, 65, 65, 65, 65, 65, 65] :: pystr"
  let ?p = "\<lparr>post_id = [49], url = [120], content = Some [104, 105]\<rparr>"
  let ?f = "\<lparr>file_name = [97, 46, 109, 100], file_text = [104, 105]\<rparr>"
  let ?P = "\<lparr>post_id = [49], url = [120], content = Some ?A\<rparr>"
  let ?F = "\<lparr>file_name = [97, 46, 109, 100], file_text = ?A\<rparr>"
  let ?e = "map (\<lambda>c. [1 :: real]) :: pystr list \<Rightarrow> real list list"
  have short: "clean_text [104, 105] = [104, 105]"
    by (simp add: clean_text_def strip_def lstrip_def rstrip_def isspace_def)
  have long: "clean_text ?A = ?A"
    by (simp add: clean_text_def strip_def lstrip_def rstrip_def isspace_def)
  have sp: "split_ws ?A = [?A]"
    by (simp add: isspace_def)
  have ch: "chunk_text ?A CHUNK_SIZE CHUNK_OVERLAP = Inr [?A]"
    unfolding chunk_text_def sp Let_def
    by (simp add: CHUNK_SIZE_def CHUNK_OVERLAP_def py_range_def py_slice_def chunk_step_def)
  note s = short_documents_dropped[where p = ?p and f = ?f and ps = "[]" and qs = "[]"
      and fs = "[]" and gs = "[]" and embed_chunks = ?e and dtable = "[]" and mtable = "[]"]
  note l = short_documents_dropped[where p = ?P and f = ?F and qs = "[]" and gs = "[]"
      and dchunks = "[]" and dmeta = "[]" and mchunks = "[]" and mmeta = "[]"]
  have 1: "process_discourse ?e (Some [?p]) [] = Inr []"
  proof -
    from s have "process_discourse ?e (Some ([] @ ?p # [])) []
                   = process_discourse ?e (Some ([] @ [])) []"
      by (simp add: post_get_content_def short)
    then show ?thesis by (simp add: process_discourse_def insert_rows_def)
  qed
  have 2: "process_markdown ?e (Some [?f]) [] = Inr []"
  proof -
    from s have "process_markdown ?e (Some ([] @ ?f # [])) []
                   = process_markdown ?e (Some ([] @ [])) []"
      by (simp add: short)
    then show ?thesis by (simp add: process_markdown_def)
  qed
  have 3: "discourse_loop [?P] ([], []) = Inr ([?A], [([49], [120])])"
  proof -
    have h: "30 \<le> length (clean_text (post_get_content ?P))"
      by (simp add: post_get_content_def long)
    from l[THEN conjunct2, THEN conjunct2, THEN conjunct1, THEN mp, OF h]
    obtain cs where
      "chunk_text (clean_text (post_get_content ?P)) CHUNK_SIZE CHUNK_OVERLAP = Inr cs"
      "discourse_loop [?P] ([], [])
         = discourse_loop [] ([] @ cs, [] @ replicate (length cs) (post_id ?P, url ?P))"
      by blast
    then show ?thesis by (auto simp: post_get_content_def long ch)
  qed
  have 4: "markdown_loop [?F] ([], []) = Inr ([?A], [([97, 46, 109, 100], 0)])"
  proof -
    have h: "30 \<le> length (clean_text (file_text ?F))"
      by (simp add: long)
    from l[THEN conjunct2, THEN conjunct2, THEN conjunct2, THEN mp, OF h]
    obtain cs where
      "chunk_text (clean_text (file_text ?F)) CHUNK_SIZE CHUNK_OVERLAP = Inr cs"
      "markdown_loop [?F] ([], [])
         = markdown_loop [] ([] @ cs, [] @ map (\<lambda>i. (file_name ?F, i)) [0..<length cs])"
      by blast
    then show ?thesis by (auto simp: long ch)
  qed
  from 1 2 3 4 show ?thesis by blast
qed

end
